theory Spec2Isabelle
  imports
    Main
    "HOL-Library.Word"
    "HOL-Library.Signed_Division"
    "HOL-Library.Multiset"
    "HOL-Library.Sublist"
    "HOL-Library.AList"
begin

section \<open>The page list of \<open>src/main.js\<close>\<close>

text \<open>
  \<open>main.js\<close> keeps two module-level variables, \<open>pages\<close> (an array of page objects)
  and \<open>selectedPages\<close> (a \<open>Set\<close> of page ids), and mutates them from event handlers.
  The handlers are embedded as functions on a record holding both variables. DOM work
  (\<open>updateUI\<close>, \<open>renderThumbnails\<close>, \<open>updatePageCards\<close>, \<open>updateToolbarState\<close>, the
  progress overlay, the preference stub) reads the two variables and never writes them,
  so it is left out of the embedding.
\<close>

subsection \<open>Data\<close>

text \<open>A \<open>Uint8Array\<close>: the bytes of one uploaded file.\<close>

type_synonym bytes = "8 word list"

text \<open>
  The object literal pushed by \<open>loadPDFs\<close>. The field \<open>id\<close> is written \<open>id'\<close>;
  \<open>pdfJsPage\<close> is the opaque page proxy handed out by PDF.js, kept as a number.
  \<open>rotation\<close> is a JavaScript number that only ever holds integers.
\<close>

record page =
  id' :: string
  sourceFile :: string
  sourcePageIndex :: nat
  pdfBytes :: bytes
  rotation :: int
  pdfJsPage :: nat

text \<open>
  The module state. \<open>uuidsDrawn\<close> is not a variable of the program: it counts the calls
  of \<open>crypto.randomUUID()\<close> made so far, so that the stream of identifiers the
  environment hands out can be passed to \<open>loadPDFs\<close> as a function of that count.
\<close>

record state =
  pages :: "page list"
  selectedPages :: "string set"
  uuidsDrawn :: nat

definition init :: state where
  "init = \<lparr>pages = [], selectedPages = {}, uuidsDrawn = 0\<rparr>"

subsection \<open>Selection\<close>

text \<open>
  \<open>toggleSelection(pageId)\<close>: \<open>has\<close>, then \<open>delete\<close> or \<open>add\<close>. There is no look-up
  of \<open>pageId\<close> in \<open>pages\<close>.
\<close>

definition toggleSelection :: "string \<Rightarrow> state \<Rightarrow> state" where
  "toggleSelection pageId st =
     (if pageId \<in> selectedPages st
      then st\<lparr>selectedPages := selectedPages st - {pageId}\<rparr>
      else st\<lparr>selectedPages := insert pageId (selectedPages st)\<rparr>)"

text \<open>\<open>selectAll\<close>: \<open>pages.forEach(page => selectedPages.add(page.id))\<close>.\<close>

definition selectAll :: "state \<Rightarrow> state" where
  "selectAll st = st\<lparr>selectedPages := fold (\<lambda>p s. insert (id' p) s) (pages st) (selectedPages st)\<rparr>"

definition deselectAll :: "state \<Rightarrow> state" where
  "deselectAll st = st\<lparr>selectedPages := {}\<rparr>"

subsection \<open>Rotation, deletion, clearing\<close>

text \<open>
  JavaScript's \<open>%\<close> takes the sign of the dividend; on integers it is \<open>smod\<close>.

  \<open>rotateSelected\<close> first builds \<open>selectedList = pages.filter(p => selectedPages.has(p.id))\<close>,
  an array of references to objects that are also elements of \<open>pages\<close>, and then
  assigns \<open>page.rotation\<close> through each reference. Every element of \<open>pages\<close> is an object
  of its own (one literal per \<open>push\<close>; \<open>splice\<close> and \<open>filter\<close> move references and never
  duplicate them), so a reference is modelled by the position of the object in \<open>pages\<close>,
  and the assignment by an update of the list at that position.
\<close>

definition rotate90 :: "page \<Rightarrow> page" where
  "rotate90 p = p\<lparr>rotation := (rotation p + 90) smod 360\<rparr>"

definition rotateSelected :: "state \<Rightarrow> state" where
  "rotateSelected st =
     (let selectedList = filter (\<lambda>k. id' (pages st ! k) \<in> selectedPages st) [0..<length (pages st)]
      in st\<lparr>pages := fold (\<lambda>k ps. ps[k := rotate90 (ps ! k)]) selectedList (pages st)\<rparr>)"

text \<open>\<open>deleteSelected\<close>: \<open>pages = pages.filter(p => !selectedPages.has(p.id)); selectedPages.clear()\<close>.\<close>

definition deleteSelected :: "state \<Rightarrow> state" where
  "deleteSelected st =
     st\<lparr>pages := filter (\<lambda>p. id' p \<notin> selectedPages st) (pages st), selectedPages := {}\<rparr>"

definition clearAll :: "state \<Rightarrow> state" where
  "clearAll st = st\<lparr>pages := [], selectedPages := {}\<rparr>"

subsection \<open>Reordering\<close>

text \<open>
  \<open>Array.prototype.splice(start, deleteCount, ...items)\<close> never throws on an index: it
  computes \<open>actualStart\<close> by counting a negative \<open>start\<close> from the end and clamping the
  result into \<open>[0, len]\<close>, and clamps \<open>deleteCount\<close> into \<open>[0, len - actualStart]\<close>.
  Indices are JavaScript numbers holding integers, hence \<open>int\<close>.
\<close>

definition actualStart :: "int \<Rightarrow> nat \<Rightarrow> nat" where
  "actualStart start len =
     (if start < 0 then nat (max (int len + start) 0) else nat (min start (int len)))"

text \<open>\<open>splice(start, 1)\<close>: the removed elements and the array that is left.\<close>

definition splice_remove1 :: "int \<Rightarrow> 'a list \<Rightarrow> 'a list \<times> 'a list" where
  "splice_remove1 start xs =
     (let a = actualStart start (length xs);
          actualDeleteCount = min 1 (length xs - a)
      in (take actualDeleteCount (drop a xs), take a xs @ drop (a + actualDeleteCount) xs))"

text \<open>\<open>splice(start, 0, item)\<close>.\<close>

definition splice_insert :: "int \<Rightarrow> 'a \<Rightarrow> 'a list \<Rightarrow> 'a list" where
  "splice_insert start item xs =
     (let a = actualStart start (length xs) in take a xs @ item # drop a xs)"

text \<open>
  \<open>reorderPages(fromIndex, toIndex)\<close> touches \<open>pages\<close> only. When the first \<open>splice\<close>
  removes nothing, the destructuring \<open>const [movedPage] = []\<close> binds \<open>undefined\<close>, and the
  second \<open>splice\<close> inserts that \<open>undefined\<close> into the array. The array is therefore
  modelled with elements of type \<open>'a option\<close>, \<open>None\<close> standing for \<open>undefined\<close>; an
  array of page objects \<open>ps\<close> is \<open>map Some ps\<close>.
\<close>

definition reorderPages :: "int \<Rightarrow> int \<Rightarrow> 'a option list \<Rightarrow> 'a option list" where
  "reorderPages fromIndex toIndex arr =
     (case splice_remove1 fromIndex arr of
        (removed, rest) \<Rightarrow>
          (let movedPage = (case removed of [] \<Rightarrow> None | x # _ \<Rightarrow> x)
           in splice_insert toIndex movedPage rest))"

text \<open>The page objects of an array, in order, skipping \<open>undefined\<close> entries.\<close>

definition defined_entries :: "'a option list \<Rightarrow> 'a list" where
  "defined_entries arr = concat (map (\<lambda>e. case e of None \<Rightarrow> [] | Some x \<Rightarrow> [x]) arr)"

subsection \<open>The two PDF libraries\<close>

text \<open>
  \<open>pdf-lib\<close> and \<open>pdfjs-dist\<close> are not part of the repository, so what they do with a
  byte buffer is a parameter of the embedding:
  \<^item> \<open>randomUUID k\<close> is the string returned by the \<open>k\<close>-th call of \<open>crypto.randomUUID()\<close>;
  \<^item> \<open>pdflib_parse b\<close> is \<open>None\<close> when \<open>PDFDocument.load(b)\<close> rejects, and otherwise the
    list of the \<open>/Rotate\<close> angles of the pages of the parsed document (its length is
    \<open>getPageCount()\<close>);
  \<^item> \<open>setRotation_accepts a\<close> tells whether \<open>setRotation(degrees(a))\<close> returns rather
    than throws;
  \<^item> \<open>pdfjs_getDocument b\<close> is \<open>None\<close> when the loading task of PDF.js rejects, and
    otherwise lists, for page numbers \<open>1, 2, ...\<close>, the proxy that \<open>getPage\<close> resolves to
    or \<open>None\<close> when \<open>getPage\<close> rejects.
\<close>

record env =
  randomUUID :: "nat \<Rightarrow> string"
  pdflib_parse :: "bytes \<Rightarrow> int list option"
  setRotation_accepts :: "int \<Rightarrow> bool"
  pdfjs_getDocument :: "bytes \<Rightarrow> nat option list option"

text \<open>
  A \<open>PDFPage\<close>. The embedding does not look into page contents: a page is identified by
  the buffer its document was parsed from and its index there, and carries the one
  attribute the program reads and writes, its rotation angle
  (\<open>getRotation().angle\<close>, \<open>setRotation\<close>).
\<close>

record pdf_page =
  origin_bytes :: bytes
  origin_index :: nat
  angle :: int

text \<open>\<open>PDFDocument.load(b)\<close>: the pages of the parsed document, or \<open>None\<close> for a rejection.\<close>

definition PDFDocument_load :: "env \<Rightarrow> bytes \<Rightarrow> pdf_page list option" where
  "PDFDocument_load e b =
     (case pdflib_parse e b of
        None \<Rightarrow> None
      | Some rs \<Rightarrow>
          Some (map (\<lambda>i. \<lparr>origin_bytes = b, origin_index = i, angle = rs ! i\<rparr>) [0..<length rs]))"

text \<open>\<open>pdfJsDoc.getPage(n)\<close>, with page numbers starting at 1.\<close>

definition pdfjs_getPage :: "nat option list \<Rightarrow> nat \<Rightarrow> nat option" where
  "pdfjs_getPage pdfJsDoc n =
     (if 1 \<le> n \<and> n \<le> length pdfJsDoc then pdfJsDoc ! (n - 1) else None)"

subsection \<open>Loading\<close>

text \<open>
  A dropped \<open>File\<close>: its name and what \<open>file.arrayBuffer()\<close> resolves to (\<open>None\<close> when the
  read is rejected).
\<close>

record pdf_file =
  name :: string
  arrayBuffer :: "bytes option"

text \<open>
  \<open>loadPDFs\<close> wraps its loops in \<open>try\<close>/\<open>catch\<close>: an exception anywhere leaves the loops,
  shows an alert and returns. The state is whatever the loops had made of it by then, so
  the embedding returns the state together with how the loops ended: \<open>Completed\<close> when
  they ran through all files, \<open>Alerted\<close> when an exception left them. The redrawing
  that follows the loops (\<open>updateUI\<close>, \<open>renderThumbnails\<close>) writes neither variable and
  is not part of the embedding.
\<close>

datatype outcome = Completed | Alerted

text \<open>The inner loop \<open>for (let i = 0; i < pageCount; i++)\<close>, over the remaining values of \<open>i\<close>.\<close>

fun push_pages :: "env \<Rightarrow> string \<Rightarrow> bytes \<Rightarrow> nat option list \<Rightarrow> nat list \<Rightarrow> state \<Rightarrow> outcome \<times> state" where
  "push_pages e fname pdfBytes' pdfJsDoc [] st = (Completed, st)"
| "push_pages e fname pdfBytes' pdfJsDoc (i # rest) st =
     (case pdfjs_getPage pdfJsDoc (i + 1) of
        None \<Rightarrow> (Alerted, st)
      | Some pdfJsPage' \<Rightarrow>
          push_pages e fname pdfBytes' pdfJsDoc rest
            (st\<lparr>pages := pages st @
                   [\<lparr>id' = randomUUID e (uuidsDrawn st), sourceFile = fname, sourcePageIndex = i,
                     pdfBytes = pdfBytes', rotation = 0, pdfJsPage = pdfJsPage'\<rparr>],
                 uuidsDrawn := Suc (uuidsDrawn st)\<rparr>))"

text \<open>The outer loop \<open>for (const file of files)\<close>.\<close>

fun loadPDFs :: "env \<Rightarrow> pdf_file list \<Rightarrow> state \<Rightarrow> outcome \<times> state" where
  "loadPDFs e [] st = (Completed, st)"
| "loadPDFs e (f # files) st =
     (case arrayBuffer f of
        None \<Rightarrow> (Alerted, st)
      | Some pdfBytes' \<Rightarrow>
          (case PDFDocument_load e pdfBytes' of
             None \<Rightarrow> (Alerted, st)
           | Some pdfDoc \<Rightarrow>
               (case pdfjs_getDocument e pdfBytes' of
                  None \<Rightarrow> (Alerted, st)
                | Some pdfJsDoc \<Rightarrow>
                    (case push_pages e (name f) pdfBytes' pdfJsDoc [0..<length pdfDoc] st of
                       (Alerted, st') \<Rightarrow> (Alerted, st')
                     | (Completed, st') \<Rightarrow> loadPDFs e files st'))))"

subsection \<open>Export\<close>

text \<open>\<open>String(n)\<close> for a non-negative integer: its decimal digits.\<close>

definition digit :: "nat \<Rightarrow> char" where
  "digit d = ''0123456789'' ! d"

function decimal :: "nat \<Rightarrow> string" where
  "decimal n = (if n < 10 then [digit n] else decimal (n div 10) @ [digit (n mod 10)])"
  by pat_completeness auto
termination
  by (relation "measure (\<lambda>n. n)") auto

text \<open>The grouping key \<open>page.sourceFile + '-' + page.pdfBytes.length\<close>.\<close>

definition source_key :: "page \<Rightarrow> string" where
  "source_key p = sourceFile p @ ''-'' @ decimal (length (pdfBytes p))"

text \<open>
  \<open>pagesBySource\<close> is a \<open>Map\<close>, which iterates in insertion order: an association list
  with \<open>AList.update\<close> for \<open>set\<close> (replace in place, or append). One step of the
  \<open>forEach\<close>: create the group when the key is new, then push \<open>{page, index}\<close> onto the
  group's \<open>pages\<close>.
\<close>

type_synonym source_group = "bytes \<times> (page \<times> nat) list"

definition group_step :: "page \<times> nat \<Rightarrow> (string \<times> source_group) list \<Rightarrow> (string \<times> source_group) list" where
  "group_step pi m =
     (let key = source_key (fst pi);
          m1 = (if map_of m key = None then AList.update key (pdfBytes (fst pi), []) m else m)
      in case map_of m1 key of
           None \<Rightarrow> m1
         | Some (b, l) \<Rightarrow> AList.update key (b, l @ [pi]) m1)"

definition group_pages :: "page list \<Rightarrow> (string \<times> source_group) list" where
  "group_pages ps = fold group_step (zip ps [0..<length ps]) []"

text \<open>
  \<open>copiedPages\<close> starts as \<open>[]\<close> and is filled by \<open>copiedPages[index] = copiedPage\<close> in
  group order, so it can have holes on the way. A JavaScript array is its indexed
  properties and its \<open>length\<close>; an assignment beyond the end raises \<open>length\<close>.
\<close>

record 'a js_array =
  elems :: "nat \<Rightarrow> 'a option"
  len :: nat

definition js_empty :: "'a js_array" where
  "js_empty = \<lparr>elems = (\<lambda>_. None), len = 0\<rparr>"

definition js_assign :: "nat \<Rightarrow> 'a \<Rightarrow> 'a js_array \<Rightarrow> 'a js_array" where
  "js_assign i v arr = \<lparr>elems = (elems arr)(i \<mapsto> v), len = max (len arr) (Suc i)\<rparr>"

text \<open>What \<open>for (const x of arr)\<close> visits: \<open>undefined\<close> (\<open>None\<close>) at a hole.\<close>

definition js_values :: "'a js_array \<Rightarrow> 'a option list" where
  "js_values arr = map (elems arr) [0..<len arr]"

text \<open>
  The body of the inner loop of \<open>downloadMerged\<close> up to the assignment:
  \<open>copyPages(srcDoc, [page.sourcePageIndex])\<close> throws when the document has no page at
  that index; the rotation is added to the angle the copy carries when it is not \<open>0\<close>.
\<close>

definition copy_page :: "env \<Rightarrow> pdf_page list \<Rightarrow> page \<Rightarrow> pdf_page option" where
  "copy_page e srcDoc p =
     (if sourcePageIndex p < length srcDoc
      then (let copiedPage = srcDoc ! sourcePageIndex p
            in if rotation p \<noteq> 0
               then (if setRotation_accepts e (angle copiedPage + rotation p)
                     then Some (copiedPage\<lparr>angle := angle copiedPage + rotation p\<rparr>)
                     else None)
               else Some copiedPage)
      else None)"

text \<open>\<open>for (const { page, index } of data.pages)\<close>; \<open>None\<close> is an exception.\<close>

fun copy_group :: "env \<Rightarrow> pdf_page list \<Rightarrow> (page \<times> nat) list \<Rightarrow> pdf_page js_array \<Rightarrow> pdf_page js_array option" where
  "copy_group e srcDoc [] copiedPages = Some copiedPages"
| "copy_group e srcDoc ((p, index) # rest) copiedPages =
     (case copy_page e srcDoc p of
        None \<Rightarrow> None
      | Some copiedPage \<Rightarrow> copy_group e srcDoc rest (js_assign index copiedPage copiedPages))"

text \<open>\<open>for (const [key, data] of pagesBySource)\<close>.\<close>

fun copy_groups :: "env \<Rightarrow> (string \<times> source_group) list \<Rightarrow> pdf_page js_array \<Rightarrow> pdf_page js_array option" where
  "copy_groups e [] copiedPages = Some copiedPages"
| "copy_groups e ((key, (b, l)) # rest) copiedPages =
     (case PDFDocument_load e b of
        None \<Rightarrow> None
      | Some srcDoc \<Rightarrow>
          (case copy_group e srcDoc l copiedPages of
             None \<Rightarrow> None
           | Some copiedPages' \<Rightarrow> copy_groups e rest copiedPages'))"

text \<open>
  \<open>for (const page of copiedPages) mergedPdf.addPage(page)\<close>, the pages of \<open>mergedPdf\<close>
  being the accumulator; \<open>addPage(undefined)\<close> throws.
\<close>

fun addPages :: "pdf_page option list \<Rightarrow> pdf_page list \<Rightarrow> pdf_page list option" where
  "addPages [] mergedPdf = Some mergedPdf"
| "addPages (None # rest) mergedPdf = None"
| "addPages (Some pg # rest) mergedPdf = addPages rest (mergedPdf @ [pg])"

text \<open>
  \<open>downloadMerged\<close> reads \<open>pages\<close> and writes nothing to the state. It returns at once
  on an empty list, alerts on an exception, and otherwise saves and offers for download
  the document whose pages are listed.
\<close>

datatype export_outcome = NothingToExport | ExportAlert | Download "pdf_page list"

definition downloadMerged :: "env \<Rightarrow> state \<Rightarrow> export_outcome" where
  "downloadMerged e st =
     (if length (pages st) = 0 then NothingToExport
      else (case copy_groups e (group_pages (pages st)) js_empty of
              None \<Rightarrow> ExportAlert
            | Some copiedPages \<Rightarrow>
                (case addPages (js_values copiedPages) [] of
                   None \<Rightarrow> ExportAlert
                 | Some mergedPdf \<Rightarrow> Download mergedPdf)))"

subsection \<open>Notions used to state what loading and export do\<close>

text \<open>
  A file opens when its bytes can be read and both libraries accept them. It loads fully
  when, in addition, PDF.js hands out a proxy for every page that \<open>pdf-lib\<close> counts.
\<close>

definition opens :: "env \<Rightarrow> pdf_file \<Rightarrow> bool" where
  "opens e f =
     (case arrayBuffer f of
        None \<Rightarrow> False
      | Some b \<Rightarrow> PDFDocument_load e b \<noteq> None \<and> pdfjs_getDocument e b \<noteq> None)"

definition loads_fully :: "env \<Rightarrow> pdf_file \<Rightarrow> bool" where
  "loads_fully e f =
     (case arrayBuffer f of
        None \<Rightarrow> False
      | Some b \<Rightarrow>
          (case PDFDocument_load e b of
             None \<Rightarrow> False
           | Some pdfDoc \<Rightarrow>
               (case pdfjs_getDocument e b of
                  None \<Rightarrow> False
                | Some pdfJsDoc \<Rightarrow>
                    list_all (\<lambda>i. pdfjs_getPage pdfJsDoc (i + 1) \<noteq> None) [0..<length pdfDoc])))"

text \<open>
  The buffer \<open>downloadMerged\<close> opens for a record \<open>p\<close> of \<open>ps\<close>: the \<open>bytes\<close> stored in the
  group of \<open>p\<close>, which are those of the first record of \<open>ps\<close> that has the grouping key of
  \<open>p\<close>. \<open>copied_from\<close> is the page copied for \<open>p\<close> out of that buffer, or \<open>None\<close> when
  opening or copying throws.
\<close>

definition group_bytes :: "page list \<Rightarrow> page \<Rightarrow> bytes" where
  "group_bytes ps p =
     (case find (\<lambda>q. source_key q = source_key p) ps of
        None \<Rightarrow> pdfBytes p
      | Some q \<Rightarrow> pdfBytes q)"

definition copied_from :: "env \<Rightarrow> page list \<Rightarrow> page \<Rightarrow> pdf_page option" where
  "copied_from e ps p =
     (case PDFDocument_load e (group_bytes ps p) of
        None \<Rightarrow> None
      | Some srcDoc \<Rightarrow> copy_page e srcDoc p)"

text \<open>
  \<open>copiedPages\<close> while it is being filled: exactly the indices in \<open>S\<close> hold a page, index
  \<open>i\<close> holds \<open>R i\<close>, and \<open>length\<close> covers \<open>S\<close> without exceeding \<open>n\<close>.
\<close>

definition filled :: "(nat \<Rightarrow> 'a) \<Rightarrow> nat \<Rightarrow> nat set \<Rightarrow> 'a js_array \<Rightarrow> bool" where
  "filled R n S arr =
     (elems arr = (\<lambda>i. if i \<in> S then Some (R i) else None) \<and> (\<forall>i\<in>S. i < len arr) \<and>
      len arr \<le> n)"

subsection \<open>Invariants and sequences of operations\<close>

text \<open>The ids of the records that are in \<open>pages\<close>.\<close>

definition live_ids :: "state \<Rightarrow> string set" where
  "live_ids st = set (map id' (pages st))"

text \<open>No dangling selection: every selected id is the id of a record in \<open>pages\<close>.\<close>

definition selection_inv :: "state \<Rightarrow> bool" where
  "selection_inv st = (selectedPages st \<subseteq> live_ids st)"

text \<open>The values \<open>rotation\<close> takes: \<open>loadPDFs\<close> writes \<open>0\<close>, \<open>rotateSelected\<close> adds \<open>90\<close> modulo \<open>360\<close>.\<close>

definition quarter_turn :: "int \<Rightarrow> bool" where
  "quarter_turn r = (r = 0 \<or> r = 90 \<or> r = 180 \<or> r = 270)"

definition rotation_inv :: "state \<Rightarrow> bool" where
  "rotation_inv st = list_all (\<lambda>p. quarter_turn (rotation p)) (pages st)"

text \<open>Runs of the two handlers \<open>toggleSelection\<close> and \<open>deleteSelected\<close>.\<close>

datatype operation = ToggleSelect string | DeleteSelected

fun apply_operation :: "operation \<Rightarrow> state \<Rightarrow> state" where
  "apply_operation (ToggleSelect pageId) st = toggleSelection pageId st"
| "apply_operation DeleteSelected st = deleteSelected st"

text \<open>The state after each operation of a run, in order.\<close>

fun states_after :: "operation list \<Rightarrow> state \<Rightarrow> state list" where
  "states_after [] st = []"
| "states_after (op # ops) st = apply_operation op st # states_after ops (apply_operation op st)"

text \<open>
  Every \<open>ToggleSelect\<close> of the run is given the id of a record that is in \<open>pages\<close> when it
  runs, as the click handler of a page card does (\<open>toggleSelection(page.id)\<close>).
\<close>

fun toggles_live :: "operation list \<Rightarrow> state \<Rightarrow> bool" where
  "toggles_live [] st = True"
| "toggles_live (ToggleSelect pageId # ops) st =
     (pageId \<in> live_ids st \<and> toggles_live ops (toggleSelection pageId st))"
| "toggles_live (DeleteSelected # ops) st = toggles_live ops (deleteSelected st)"

subsection \<open>Example inputs\<close>

definition page1 :: page where
  "page1 = \<lparr>id' = ''p1'', sourceFile = ''a.pdf'', sourcePageIndex = 0, pdfBytes = [37, 80],
            rotation = 0, pdfJsPage = 0\<rparr>"

definition page2 :: page where
  "page2 = \<lparr>id' = ''p2'', sourceFile = ''a.pdf'', sourcePageIndex = 1, pdfBytes = [37, 80],
            rotation = 270, pdfJsPage = 1\<rparr>"

definition two_pages :: state where
  "two_pages = \<lparr>pages = [page1, page2], selectedPages = {''p2''}, uuidsDrawn = 2\<rparr>"

text \<open>
  A library environment in which the buffer \<open>[37, 80]\<close> is a document of two pages, the
  second stored with a \<open>/Rotate\<close> of 90, and every other buffer is rejected.
\<close>

definition env_two_pages :: env where
  "env_two_pages =
     \<lparr>randomUUID = (\<lambda>k. ''uuid-'' @ decimal k),
      pdflib_parse = (\<lambda>b. if b = [37, 80] then Some [0, 90] else None),
      setRotation_accepts = (\<lambda>a. a mod 90 = 0),
      pdfjs_getDocument = (\<lambda>b. if b = [37, 80] then Some [Some 7, Some 8] else None)\<rparr>"

text \<open>The same, except that PDF.js fails to hand out the second page.\<close>

definition env_page2_fails :: env where
  "env_page2_fails =
     env_two_pages\<lparr>pdfjs_getDocument := (\<lambda>b. if b = [37, 80] then Some [Some 7, None] else None)\<rparr>"

definition good_file :: pdf_file where
  "good_file = \<lparr>name = ''a.pdf'', arrayBuffer = Some [37, 80]\<rparr>"

definition bad_file :: pdf_file where
  "bad_file = \<lparr>name = ''broken.pdf'', arrayBuffer = Some [0]\<rparr>"

text \<open>
  Two files of the same name and the same size with different bytes (the same file name
  in two folders), in an environment where every buffer is a document of one page.
\<close>

definition env_one_page :: env where
  "env_one_page =
     \<lparr>randomUUID = (\<lambda>k. ''uuid-'' @ decimal k),
      pdflib_parse = (\<lambda>b. Some [0]),
      setRotation_accepts = (\<lambda>a. a mod 90 = 0),
      pdfjs_getDocument = (\<lambda>b. Some [Some 7])\<rparr>"

definition scan_a :: pdf_file where
  "scan_a = \<lparr>name = ''scan.pdf'', arrayBuffer = Some [37, 80]\<rparr>"

definition scan_b :: pdf_file where
  "scan_b = \<lparr>name = ''scan.pdf'', arrayBuffer = Some [37, 81]\<rparr>"

section \<open>Selection\<close>

lemma toggleSelection_inv:
  "selection_inv st \<Longrightarrow> pageId \<in> live_ids st \<Longrightarrow> selection_inv (toggleSelection pageId st)"
  by (auto simp: selection_inv_def live_ids_def toggleSelection_def)

lemma deleteSelected_inv: "selection_inv (deleteSelected st)"
  by (simp add: selection_inv_def deleteSelected_def)

text \<open>
  C4, as amended. Starting from a state without dangling selection, a run of
  \<open>ToggleSelect\<close> and \<open>DeleteSelected\<close> in which every \<open>ToggleSelect\<close> is given the id of a
  record that is in the collection at that moment has no dangling selection after any of
  its operations.
\<close>

theorem selection_inv_live_toggles:
  "selection_inv st \<Longrightarrow> toggles_live ops st \<Longrightarrow> list_all selection_inv (states_after ops st)"
proof (induction ops arbitrary: st)
  case Nil
  then show ?case by simp
next
  case (Cons op ops)
  show ?case
  proof (cases op)
    case (ToggleSelect pageId)
    with Cons.prems have "selection_inv (toggleSelection pageId st)"
      by (simp add: toggleSelection_inv)
    with Cons ToggleSelect show ?thesis by simp
  next
    case DeleteSelected
    with Cons show ?thesis by (simp add: deleteSelected_inv)
  qed
qed

theorem selection_inv_live_toggles_witness:
  "selection_inv two_pages
   \<and> toggles_live
       [ToggleSelect ''p2'', ToggleSelect ''p1'', DeleteSelected, ToggleSelect ''p2''] two_pages
   \<and> list_all selection_inv
       (states_after
          [ToggleSelect ''p2'', ToggleSelect ''p1'', DeleteSelected, ToggleSelect ''p2'']
          two_pages)"
proof -
  have a: "selection_inv two_pages"
    by (simp add: selection_inv_def live_ids_def two_pages_def page1_def page2_def)
  have b: "toggles_live
      [ToggleSelect ''p2'', ToggleSelect ''p1'', DeleteSelected, ToggleSelect ''p2''] two_pages"
    by (simp add: live_ids_def two_pages_def page1_def page2_def toggleSelection_def
        deleteSelected_def)
  from a b selection_inv_live_toggles [OF a b] show ?thesis by simp
qed

text \<open>
  C4 as stated fails: \<open>toggleSelection\<close> does not look its argument up in \<open>pages\<close>, so
  toggling an id that no record has, here in the initial state, selects it.
\<close>

theorem selection_inv_counterexample:
  "selection_inv init \<and> \<not> list_all selection_inv (states_after [ToggleSelect ''ghost''] init)"
  by (simp add: selection_inv_def live_ids_def init_def toggleSelection_def)

text \<open>
  C5, as amended. For an id that no record of the collection has, \<open>toggleSelection\<close>
  leaves \<open>pages\<close> unchanged and flips the membership of the id in \<open>selectedPages\<close>
  like for any other id: an unselected id becomes selected.
\<close>

theorem toggleSelection_dead_id:
  "pageId \<notin> live_ids st \<Longrightarrow>
     pages (toggleSelection pageId st) = pages st \<and>
     selectedPages (toggleSelection pageId st) =
       (if pageId \<in> selectedPages st then selectedPages st - {pageId}
        else insert pageId (selectedPages st))"
  by (simp add: toggleSelection_def)

theorem toggleSelection_dead_id_witness:
  "''ghost'' \<notin> live_ids two_pages \<and> pages (toggleSelection ''ghost'' two_pages) = pages two_pages \<and>
   selectedPages (toggleSelection ''ghost'' two_pages) = {''ghost'', ''p2''}"
  using toggleSelection_dead_id [of "''ghost''" two_pages]
  by (simp add: live_ids_def two_pages_def page1_def page2_def)

text \<open>C5 as stated fails: the call is not a no-op, the state after it differs.\<close>

theorem toggleSelection_noop_counterexample:
  "''ghost'' \<notin> live_ids two_pages \<and>
   selectedPages (toggleSelection ''ghost'' two_pages) \<noteq> selectedPages two_pages"
  by (simp add: live_ids_def two_pages_def page1_def page2_def toggleSelection_def)

section \<open>Rotation\<close>

text \<open>Updating a list at distinct positions, one after the other.\<close>

lemma fold_update_length:
  "length (fold (\<lambda>k ps. ps[k := f (ps ! k)]) ks xs) = length xs"
  by (induction ks arbitrary: xs) simp_all

lemma fold_update_nth:
  "distinct ks \<Longrightarrow> \<forall>k\<in>set ks. k < length xs \<Longrightarrow> i < length xs \<Longrightarrow>
   fold (\<lambda>k ps. ps[k := f (ps ! k)]) ks xs ! i = (if i \<in> set ks then f (xs ! i) else xs ! i)"
proof (induction ks arbitrary: xs)
  case Nil
  then show ?case by simp
next
  case (Cons k ks)
  let ?xs = "xs[k := f (xs ! k)]"
  have "fold (\<lambda>k ps. ps[k := f (ps ! k)]) ks ?xs ! i = (if i \<in> set ks then f (?xs ! i) else ?xs ! i)"
    using Cons.prems by (intro Cons.IH) simp_all
  then show ?case using Cons.prems by (auto simp: nth_list_update)
qed

text \<open>The assignments through \<open>selectedList\<close> amount to a map over \<open>pages\<close>.\<close>

lemma rotateSelected_pages:
  "pages (rotateSelected st) =
     map (\<lambda>p. if id' p \<in> selectedPages st then rotate90 p else p) (pages st)"
  unfolding rotateSelected_def Let_def
  by (rule nth_equalityI) (simp_all add: fold_update_length fold_update_nth)

lemma rotateSelected_selectedPages: "selectedPages (rotateSelected st) = selectedPages st"
  by (simp add: rotateSelected_def Let_def)

lemma rotateSelected_uuidsDrawn: "uuidsDrawn (rotateSelected st) = uuidsDrawn st"
  by (simp add: rotateSelected_def Let_def)

lemma rotateSelected_more: "state.more (rotateSelected st) = state.more st"
  by (simp add: rotateSelected_def Let_def)

lemma smod_nonneg: "0 \<le> a \<Longrightarrow> a smod 360 = a mod (360::int)"
  by (cases "a = 0") (simp_all add: smod_int_alt_def)

lemma rotate90_mod:
  "quarter_turn (rotation p) \<Longrightarrow> rotate90 p = p\<lparr>rotation := (rotation p + 90) mod 360\<rparr>"
  by (auto simp: quarter_turn_def rotate90_def smod_nonneg)

lemma rotate90_range:
  "quarter_turn (rotation p) \<Longrightarrow> quarter_turn (rotation (rotate90 p))"
  by (auto simp: quarter_turn_def rotate90_def smod_nonneg)

lemma rotate90_four:
  "quarter_turn (rotation p) \<Longrightarrow> rotate90 (rotate90 (rotate90 (rotate90 p))) = p"
  by (auto simp: quarter_turn_def rotate90_def smod_nonneg)

lemma id'_rotate90: "id' (rotate90 p) = id' p"
  by (simp add: rotate90_def)

lemma rotateSelected_rotation_inv:
  assumes "rotation_inv st"
  shows "rotation_inv (rotateSelected st)"
proof -
  have "quarter_turn (rotation (if id' p \<in> selectedPages st then rotate90 p else p))"
    if "p \<in> set (pages st)" for p
  proof -
    from that assms have "quarter_turn (rotation p)"
      by (simp add: rotation_inv_def list_all_iff)
    then show ?thesis by (simp add: rotate90_range)
  qed
  then have "list_all (\<lambda>p. quarter_turn (rotation (if id' p \<in> selectedPages st then rotate90 p else p)))
      (pages st)"
    unfolding list_all_iff by blast
  then show ?thesis
    by (simp only: rotation_inv_def rotateSelected_pages list.pred_map comp_def)
qed

lemma rotateSelected_four:
  assumes "rotation_inv st"
  shows "rotateSelected (rotateSelected (rotateSelected (rotateSelected st))) = st"
proof -
  let ?g = "\<lambda>p. if id' p \<in> selectedPages st then rotate90 p else p"
  have "pages (rotateSelected (rotateSelected (rotateSelected (rotateSelected st))))
        = map (?g \<circ> ?g \<circ> ?g \<circ> ?g) (pages st)"
    by (simp add: rotateSelected_pages rotateSelected_selectedPages)
  also have "\<dots> = map (\<lambda>p. p) (pages st)"
    using assms
    by (intro map_cong) (auto simp: rotation_inv_def list_all_iff id'_rotate90 rotate90_four)
  finally have "pages (rotateSelected (rotateSelected (rotateSelected (rotateSelected st)))) = pages st"
    by simp
  then show ?thesis
    by (intro state.equality)
      (simp_all add: rotateSelected_selectedPages rotateSelected_uuidsDrawn rotateSelected_more)
qed

text \<open>The handlers that do not rotate keep the rotations as they are.\<close>

lemma rotation_inv_init: "rotation_inv init"
  by (simp add: rotation_inv_def init_def)

lemma deleteSelected_rotation_inv: "rotation_inv st \<Longrightarrow> rotation_inv (deleteSelected st)"
  by (simp add: rotation_inv_def deleteSelected_def list_all_iff)

lemma toggleSelection_rotation_inv: "rotation_inv (toggleSelection pageId st) = rotation_inv st"
  by (simp add: rotation_inv_def toggleSelection_def)

lemma selectAll_rotation_inv: "rotation_inv (selectAll st) = rotation_inv st"
  by (simp add: rotation_inv_def selectAll_def)

lemma deselectAll_rotation_inv: "rotation_inv (deselectAll st) = rotation_inv st"
  by (simp add: rotation_inv_def deselectAll_def)

lemma clearAll_rotation_inv: "rotation_inv (clearAll st)"
  by (simp add: rotation_inv_def clearAll_def)

text \<open>
  C8. In a state whose rotations are among \<open>0, 90, 180, 270\<close> (the only values the
  program writes), one \<open>rotateSelected\<close> sets \<open>rotation\<close> to \<open>(rotation + 90) mod 360\<close> for
  exactly the records whose id is selected and leaves the selection as it is, so the same
  records are selected at the next application; the rotations stay among the four values;
  and four applications in a row give back the state they started from, hence the
  original rotation of every record.
\<close>

theorem rotateSelected_cycle:
  assumes "rotation_inv st"
  shows "pages (rotateSelected st) =
           map (\<lambda>p. if id' p \<in> selectedPages st
                    then p\<lparr>rotation := (rotation p + 90) mod 360\<rparr> else p) (pages st)
         \<and> selectedPages (rotateSelected st) = selectedPages st
         \<and> rotation_inv (rotateSelected st)
         \<and> rotateSelected (rotateSelected (rotateSelected (rotateSelected st))) = st"
proof -
  have "pages (rotateSelected st) =
           map (\<lambda>p. if id' p \<in> selectedPages st
                    then p\<lparr>rotation := (rotation p + 90) mod 360\<rparr> else p) (pages st)"
    unfolding rotateSelected_pages using assms
    by (intro map_cong) (auto simp: rotation_inv_def list_all_iff rotate90_mod)
  with assms show ?thesis
    by (simp add: rotateSelected_selectedPages rotateSelected_rotation_inv rotateSelected_four)
qed

theorem rotateSelected_cycle_witness:
  "rotation_inv two_pages
   \<and> pages (rotateSelected two_pages) = [page1, page2\<lparr>rotation := 0\<rparr>]
   \<and> rotateSelected (rotateSelected (rotateSelected (rotateSelected two_pages))) = two_pages"
proof -
  have a: "rotation_inv two_pages"
    by (simp add: rotation_inv_def quarter_turn_def two_pages_def page1_def page2_def)
  note c = rotateSelected_cycle [OF a]
  from c have "pages (rotateSelected two_pages) =
      map (\<lambda>p. if id' p \<in> selectedPages two_pages
               then p\<lparr>rotation := (rotation p + 90) mod 360\<rparr> else p) (pages two_pages)"
    by (rule conjunct1)
  also have "\<dots> = [page1, page2\<lparr>rotation := 0\<rparr>]"
    by (simp add: two_pages_def page1_def page2_def)
  finally show ?thesis using a c by simp
qed

text \<open>
  C10. \<open>rotateSelected\<close> keeps the length of \<open>pages\<close>, keeps every field other than
  \<open>rotation\<close> of every record at every position (so the order as well), keeps the records
  whose id is not selected as they are, and keeps \<open>selectedPages\<close>.
\<close>

theorem rotateSelected_frame:
  "length (pages (rotateSelected st)) = length (pages st)
   \<and> map id' (pages (rotateSelected st)) = map id' (pages st)
   \<and> map sourceFile (pages (rotateSelected st)) = map sourceFile (pages st)
   \<and> map sourcePageIndex (pages (rotateSelected st)) = map sourcePageIndex (pages st)
   \<and> map pdfBytes (pages (rotateSelected st)) = map pdfBytes (pages st)
   \<and> map pdfJsPage (pages (rotateSelected st)) = map pdfJsPage (pages st)
   \<and> (\<forall>k < length (pages st). id' (pages st ! k) \<notin> selectedPages st \<longrightarrow>
        pages (rotateSelected st) ! k = pages st ! k)
   \<and> selectedPages (rotateSelected st) = selectedPages st"
  by (simp add: rotateSelected_pages rotateSelected_selectedPages rotate90_def)

theorem rotateSelected_frame_witness:
  "length (pages (rotateSelected two_pages)) = 2
   \<and> map id' (pages (rotateSelected two_pages)) = [''p1'', ''p2'']
   \<and> id' (pages two_pages ! 0) \<notin> selectedPages two_pages
   \<and> pages (rotateSelected two_pages) ! 0 = page1
   \<and> selectedPages (rotateSelected two_pages) = {''p2''}"
  using rotateSelected_frame [of two_pages]
  by (simp add: two_pages_def page1_def page2_def)

section \<open>Reordering and deletion\<close>

lemma actualStart_in: "0 \<le> i \<Longrightarrow> i \<le> int n \<Longrightarrow> actualStart i n = nat i"
  by (simp add: actualStart_def)

lemma insert_length:
  "j \<le> length rest \<Longrightarrow> length (take j rest @ x # drop j rest) = Suc (length rest)"
  by simp

lemma splice_remove1_in_bounds:
  assumes "0 \<le> i" "i < int (length arr)"
  shows "splice_remove1 i arr = ([arr ! nat i], take (nat i) arr @ drop (Suc (nat i)) arr)"
proof -
  have i: "nat i < length arr" using assms by linarith
  have "take 1 (drop (nat i) arr) = [arr ! nat i]"
    using i by (simp add: take_Suc_conv_app_nth Cons_nth_drop_Suc[symmetric] One_nat_def)
  moreover have "min 1 (length arr - nat i) = 1" using i by simp
  moreover have "actualStart i (length arr) = nat i"
    using assms by (intro actualStart_in) auto
  ultimately show ?thesis
    by (simp add: splice_remove1_def Let_def)
qed

lemma splice_insert_end: "int (length xs) \<le> t \<Longrightarrow> splice_insert t x xs = xs @ [x]"
  by (simp add: splice_insert_def actualStart_def)

text \<open>With both indices in bounds, the element at \<open>i\<close> is taken out and put back at \<open>j\<close>.\<close>

lemma reorderPages_in_bounds:
  assumes "0 \<le> i" "i < int (length arr)" "0 \<le> j" "j < int (length arr)"
  shows "reorderPages i j arr =
           take (nat j) (take (nat i) arr @ drop (Suc (nat i)) arr) @ arr ! nat i #
           drop (nat j) (take (nat i) arr @ drop (Suc (nat i)) arr)"
proof -
  define rest where "rest = take (nat i) arr @ drop (Suc (nat i)) arr"
  have i: "nat i < length arr" using assms by linarith
  have "Suc (length rest) = length arr" using i by (simp add: rest_def)
  with assms have "actualStart j (length rest) = nat j"
    by (intro actualStart_in) auto
  then have "splice_insert j (arr ! nat i) rest = take (nat j) rest @ arr ! nat i # drop (nat j) rest"
    by (simp add: splice_insert_def Let_def)
  then show ?thesis
    using splice_remove1_in_bounds [OF assms(1,2)]
    by (simp add: reorderPages_def rest_def)
qed

text \<open>
  C7. For indices \<open>i\<close> and \<open>j\<close> within the bounds of the array, \<open>reorderPages(i, j)\<close>
  followed by \<open>reorderPages(j, i)\<close> gives back the array, whatever the distance
  between \<open>i\<close> and \<open>j\<close>.
\<close>

theorem reorderPages_round_trip:
  assumes "0 \<le> i" "i < int (length arr)" "0 \<le> j" "j < int (length arr)"
  shows "reorderPages j i (reorderPages i j arr) = arr"
proof -
  define rest where "rest = take (nat i) arr @ drop (Suc (nat i)) arr"
  define mid where "mid = take (nat j) rest @ arr ! nat i # drop (nat j) rest"
  have i: "nat i < length arr" and j: "nat j < length arr" using assms by linarith+
  have lrest: "Suc (length rest) = length arr" using i by (simp add: rest_def)
  have jr: "nat j \<le> length rest" using j lrest by simp
  have "length mid = Suc (length rest)" unfolding mid_def using jr by (rule insert_length)
  with lrest have lmid: "length mid = length arr" by simp
  have midj: "mid ! nat j = arr ! nat i" using jr by (simp add: mid_def nth_append)
  have undo: "take (nat j) mid @ drop (Suc (nat j)) mid = rest"
    using jr by (simp add: mid_def)
  have fwd: "reorderPages i j arr = mid"
    using reorderPages_in_bounds [OF assms] by (simp add: mid_def rest_def)
  have "reorderPages j i mid =
          take (nat i) (take (nat j) mid @ drop (Suc (nat j)) mid) @ mid ! nat j #
          drop (nat i) (take (nat j) mid @ drop (Suc (nat j)) mid)"
    using assms lmid by (intro reorderPages_in_bounds) simp_all
  also have "\<dots> = take (nat i) rest @ arr ! nat i # drop (nat i) rest"
    by (simp only: undo midj)
  also have "\<dots> = arr" using i by (simp add: rest_def id_take_nth_drop[symmetric])
  finally show ?thesis by (simp only: fwd)
qed

text \<open>The witness moves a record to the neighbouring position and back, and across the array and back.\<close>

theorem reorderPages_round_trip_witness:
  "reorderPages 0 1 [Some ''a'', Some ''b'', Some ''c'', Some ''d''] =
     [Some ''b'', Some ''a'', Some ''c'', Some ''d'']
   \<and> reorderPages 1 0 (reorderPages 0 1 [Some ''a'', Some ''b'', Some ''c'', Some ''d'']) =
     [Some ''a'', Some ''b'', Some ''c'', Some ''d'']
   \<and> reorderPages 0 3 [Some ''a'', Some ''b'', Some ''c'', Some ''d''] =
     [Some ''b'', Some ''c'', Some ''d'', Some ''a'']
   \<and> reorderPages 3 0 (reorderPages 0 3 [Some ''a'', Some ''b'', Some ''c'', Some ''d'']) =
     [Some ''a'', Some ''b'', Some ''c'', Some ''d'']"
  using reorderPages_round_trip [of 0 "[Some ''a'', Some ''b'', Some ''c'', Some ''d'']" 1]
    reorderPages_round_trip [of 0 "[Some ''a'', Some ''b'', Some ''c'', Some ''d'']" 3]
  by (simp add: reorderPages_def splice_remove1_def splice_insert_def actualStart_def)

text \<open>
  C6, as amended. \<open>reorderPages\<close> checks no index and raises nothing. With \<open>fromIndex\<close>
  in bounds and \<open>toIndex\<close> at or beyond the length of the array, \<open>splice\<close> clamps
  \<open>toIndex\<close>: the record is moved to the last position and the others keep their order.
\<close>

theorem reorderPages_clamps:
  assumes "0 \<le> fromIndex" "fromIndex < int (length arr)" "int (length arr) \<le> toIndex"
  shows "reorderPages fromIndex toIndex arr =
           take (nat fromIndex) arr @ drop (Suc (nat fromIndex)) arr @ [arr ! nat fromIndex]"
proof -
  define rest where "rest = take (nat fromIndex) arr @ drop (Suc (nat fromIndex)) arr"
  have "nat fromIndex < length arr" using assms by linarith
  then have "Suc (length rest) = length arr" by (simp add: rest_def)
  with assms have "int (length rest) \<le> toIndex" by linarith
  then have "splice_insert toIndex (arr ! nat fromIndex) rest = rest @ [arr ! nat fromIndex]"
    by (rule splice_insert_end)
  then show ?thesis
    using splice_remove1_in_bounds [OF assms(1,2)]
    by (simp add: reorderPages_def rest_def)
qed

theorem reorderPages_clamps_witness:
  "(0::int) \<le> 0 \<and> (0::int) < int (length [Some ''p1'', Some ''p2'', Some ''p3''])
   \<and> int (length [Some ''p1'', Some ''p2'', Some ''p3'']) \<le> 7
   \<and> reorderPages 0 7 [Some ''p1'', Some ''p2'', Some ''p3''] =
       [Some ''p2'', Some ''p3'', Some ''p1'']"
  using reorderPages_clamps [of 0 "[Some ''p1'', Some ''p2'', Some ''p3'']" 7]
  by simp

text \<open>
  C6 as stated fails: \<open>toIndex = 7\<close> is out of the bounds of an array of three records,
  and the call returns a reordered array.
\<close>

theorem reorderPages_out_of_bounds_counterexample:
  "\<not> (0 \<le> (7::int) \<and> (7::int) < int (length [Some ''p1'', Some ''p2'', Some ''p3'']))
   \<and> reorderPages 0 7 [Some ''p1'', Some ''p2'', Some ''p3''] \<noteq>
       [Some ''p1'', Some ''p2'', Some ''p3'']"
  by (simp add: reorderPages_def splice_remove1_def splice_insert_def actualStart_def)

lemma mset_splice_insert: "mset (splice_insert t x xs) = add_mset x (mset xs)"
proof -
  have "mset (take a xs @ x # drop a xs) = add_mset x (mset (take a xs @ drop a xs))" for a
    by (simp only: mset_append mset.simps union_mset_add_mset_right)
  then show ?thesis by (simp add: splice_insert_def Let_def)
qed

lemma mset_reorderPages:
  "mset (reorderPages fromIndex toIndex arr) =
     (if actualStart fromIndex (length arr) < length arr then mset arr else add_mset None (mset arr))"
proof (cases "actualStart fromIndex (length arr) < length arr")
  case True
  define a where "a = actualStart fromIndex (length arr)"
  have a: "a < length arr" using True by (simp add: a_def)
  have rm: "splice_remove1 fromIndex arr = ([arr ! a], take a arr @ drop (Suc a) arr)"
    using a by (simp add: splice_remove1_def a_def[symmetric] Let_def min_def take_Suc_conv_app_nth Cons_nth_drop_Suc[symmetric])
  have "mset (take a arr @ arr ! a # drop (Suc a) arr) = mset arr"
    using a by (simp only: id_take_nth_drop[symmetric])
  then have "add_mset (arr ! a) (mset (take a arr @ drop (Suc a) arr)) = mset arr"
    by simp
  then show ?thesis using True
    by (simp add: reorderPages_def rm mset_splice_insert del: mset_append)
next
  case False
  then have "splice_remove1 fromIndex arr = ([], arr)"
    by (simp add: splice_remove1_def Let_def)
  then show ?thesis using False
    by (simp add: reorderPages_def mset_splice_insert)
qed

lemma mset_defined_entries:
  "mset (defined_entries arr) = image_mset the (filter_mset (\<lambda>x. x \<noteq> None) (mset arr))"
  by (induction arr) (auto simp: defined_entries_def)

lemma defined_entries_map_Some: "defined_entries (map Some ps) = ps"
  by (induction ps) (simp_all add: defined_entries_def)

lemma mset_defined_reorderPages:
  "mset (defined_entries (reorderPages fromIndex toIndex (map Some ps))) = mset ps"
proof -
  have "mset (defined_entries (reorderPages fromIndex toIndex (map Some ps))) =
        mset (defined_entries (map Some ps))"
    unfolding mset_defined_entries mset_reorderPages by simp
  then show ?thesis by (simp add: defined_entries_map_Some)
qed

text \<open>Hence the records of a reordered array have the rotations they had.\<close>

lemma reorderPages_rotation_inv:
  assumes "list_all (\<lambda>p. quarter_turn (rotation p)) ps"
  shows "list_all (\<lambda>p. quarter_turn (rotation p))
           (defined_entries (reorderPages fromIndex toIndex (map Some ps)))"
proof -
  have "set (defined_entries (reorderPages fromIndex toIndex (map Some ps))) = set ps"
    using mset_defined_reorderPages by (rule mset_eq_setD)
  with assms show ?thesis by (simp add: list_all_iff)
qed

text \<open>
  C9. \<open>reorderPages\<close> moves array entries and writes no field: for any indices, the
  array after the call holds the same records with the same field values, each as often as
  before, plus one \<open>undefined\<close> entry when \<open>fromIndex\<close> selects nothing.
  \<open>deleteSelected\<close> keeps exactly the records whose id is not selected, unchanged and in
  their previous relative order.
\<close>

theorem reorder_delete_keep_records:
  "mset (reorderPages fromIndex toIndex (map Some ps)) =
     (if actualStart fromIndex (length ps) < length ps then mset (map Some ps)
      else add_mset None (mset (map Some ps)))
   \<and> mset (defined_entries (reorderPages fromIndex toIndex (map Some ps))) = mset ps
   \<and> subseq (pages (deleteSelected st)) (pages st)
   \<and> mset (pages (deleteSelected st)) =
       filter_mset (\<lambda>p. id' p \<notin> selectedPages st) (mset (pages st))"
  using mset_reorderPages [of fromIndex toIndex "map Some ps"]
    mset_defined_reorderPages [of fromIndex toIndex ps]
  by (simp add: deleteSelected_def)

theorem reorder_delete_keep_records_witness:
  "mset (reorderPages 1 0 (map Some [page1, page2])) = mset (map Some [page1, page2])
   \<and> reorderPages 1 0 (map Some [page1, page2]) = [Some page2, Some page1]
   \<and> subseq (pages (deleteSelected two_pages)) (pages two_pages)
   \<and> pages (deleteSelected two_pages) = [page1]"
  using reorder_delete_keep_records [of 1 0 "[page1, page2]" two_pages]
  by (simp add: actualStart_def reorderPages_def splice_remove1_def splice_insert_def
      deleteSelected_def two_pages_def page1_def page2_def)

section \<open>Loading\<close>

lemma push_pages_prefix:
  "prefix (pages st) (pages (snd (push_pages e fname b d is st)))"
proof (induction "is" arbitrary: st)
  case Nil
  then show ?case by simp
next
  case (Cons i "is")
  show ?case
  proof (cases "pdfjs_getPage d (i + 1)")
    case None
    then show ?thesis by simp
  next
    case (Some h)
    let ?st = "st\<lparr>pages := pages st @
                   [\<lparr>id' = randomUUID e (uuidsDrawn st), sourceFile = fname, sourcePageIndex = i,
                     pdfBytes = b, rotation = 0, pdfJsPage = h\<rparr>],
                 uuidsDrawn := Suc (uuidsDrawn st)\<rparr>"
    have "prefix (pages st) (pages ?st)" by simp
    also have "prefix (pages ?st) (pages (snd (push_pages e fname b d is ?st)))"
      by (rule Cons.IH)
    finally show ?thesis using Some by simp
  qed
qed

lemma push_pages_Completed:
  "list_all (\<lambda>i. pdfjs_getPage d (i + 1) \<noteq> None) is \<Longrightarrow>
   fst (push_pages e fname b d is st) = Completed"
  by (induction "is" arbitrary: st) auto

lemma loadPDFs_prefix: "prefix (pages st) (pages (snd (loadPDFs e files st)))"
proof (induction files arbitrary: st)
  case Nil
  then show ?case by simp
next
  case (Cons f files)
  show ?case
  proof (cases "arrayBuffer f")
    case None
    then show ?thesis by simp
  next
    case (Some b)
    note b = this
    show ?thesis
    proof (cases "PDFDocument_load e b")
      case None
      with b show ?thesis by simp
    next
      case (Some pdfDoc)
      note rs = this
      show ?thesis
      proof (cases "pdfjs_getDocument e b")
        case None
        with b rs show ?thesis by simp
      next
        case (Some d)
        obtain oc st' where p: "push_pages e (name f) b d [0..<length pdfDoc] st = (oc, st')"
          by (cases "push_pages e (name f) b d [0..<length pdfDoc] st")
        have 1: "prefix (pages st) (pages st')"
          using push_pages_prefix [of st e "name f" b d "[0..<length pdfDoc]"] p by simp
        show ?thesis
        proof (cases oc)
          case Completed
          have "prefix (pages st') (pages (snd (loadPDFs e files st')))" by (rule Cons.IH)
          with 1 have "prefix (pages st) (pages (snd (loadPDFs e files st')))"
            by (rule prefix_order.trans)
          with b rs Some p Completed show ?thesis by simp
        next
          case Alerted
          with b rs Some p 1 show ?thesis by simp
        qed
      qed
    qed
  qed
qed

text \<open>Loading adds records with \<open>rotation = 0\<close> and changes no record.\<close>

lemma push_pages_rotation_inv:
  "rotation_inv st \<Longrightarrow> rotation_inv (snd (push_pages e fname b d is st))"
proof (induction "is" arbitrary: st)
  case Nil
  then show ?case by simp
next
  case (Cons i "is")
  show ?case
  proof (cases "pdfjs_getPage d (i + 1)")
    case None
    with Cons.prems show ?thesis by simp
  next
    case (Some h)
    let ?st = "st\<lparr>pages := pages st @
                   [\<lparr>id' = randomUUID e (uuidsDrawn st), sourceFile = fname, sourcePageIndex = i,
                     pdfBytes = b, rotation = 0, pdfJsPage = h\<rparr>],
                 uuidsDrawn := Suc (uuidsDrawn st)\<rparr>"
    from Cons.prems have "rotation_inv ?st"
      by (simp add: rotation_inv_def quarter_turn_def)
    then have "rotation_inv (snd (push_pages e fname b d is ?st))" by (rule Cons.IH)
    with Some show ?thesis by simp
  qed
qed

lemma loadPDFs_rotation_inv:
  "rotation_inv st \<Longrightarrow> rotation_inv (snd (loadPDFs e files st))"
proof (induction files arbitrary: st)
  case Nil
  then show ?case by simp
next
  case (Cons f files)
  show ?case
  proof (cases "arrayBuffer f")
    case None
    with Cons.prems show ?thesis by simp
  next
    case (Some b)
    note b = this
    show ?thesis
    proof (cases "PDFDocument_load e b")
      case None
      with b Cons.prems show ?thesis by simp
    next
      case (Some pdfDoc)
      note doc = this
      show ?thesis
      proof (cases "pdfjs_getDocument e b")
        case None
        with b doc Cons.prems show ?thesis by simp
      next
        case (Some d)
        obtain oc st' where p: "push_pages e (name f) b d [0..<length pdfDoc] st = (oc, st')"
          by (cases "push_pages e (name f) b d [0..<length pdfDoc] st")
        have 1: "rotation_inv st'"
          using push_pages_rotation_inv [OF Cons.prems, of e "name f" b d "[0..<length pdfDoc]"] p
          by simp
        show ?thesis
        proof (cases oc)
          case Completed
          from 1 have "rotation_inv (snd (loadPDFs e files st'))" by (rule Cons.IH)
          with b doc Some p Completed show ?thesis by simp
        next
          case Alerted
          with b doc Some p 1 show ?thesis by simp
        qed
      qed
    qed
  qed
qed

lemma loadPDFs_not_opened: "\<not> opens e f \<Longrightarrow> loadPDFs e (f # files) st = (Alerted, st)"
  by (auto simp: opens_def split: option.splits)

lemma loadPDFs_loaded_fully:
  assumes "loads_fully e f"
  shows "\<exists>st'. \<forall>files. loadPDFs e (f # files) st = loadPDFs e files st'"
proof -
  from assms obtain b pdfDoc d where *: "arrayBuffer f = Some b" "PDFDocument_load e b = Some pdfDoc"
      "pdfjs_getDocument e b = Some d"
      "list_all (\<lambda>i. pdfjs_getPage d (i + 1) \<noteq> None) [0..<length pdfDoc]"
    by (auto simp: loads_fully_def split: option.splits)
  obtain oc st' where p: "push_pages e (name f) b d [0..<length pdfDoc] st = (oc, st')"
    by (cases "push_pages e (name f) b d [0..<length pdfDoc] st")
  with push_pages_Completed [OF *(4), of e "name f" b st] have "oc = Completed" by simp
  with * p have "\<forall>files. loadPDFs e (f # files) st = loadPDFs e files st'" by simp
  then show ?thesis ..
qed

lemma loadPDFs_stops_at_unopened:
  assumes "\<not> opens e f"
  shows "list_all (loads_fully e) earlier \<Longrightarrow>
         loadPDFs e (earlier @ f # later) st = (Alerted, snd (loadPDFs e earlier st))
         \<and> fst (loadPDFs e earlier st) = Completed"
proof (induction earlier arbitrary: st)
  case Nil
  have "loadPDFs e (f # later) st = (Alerted, st)"
    using assms by (rule loadPDFs_not_opened)
  then show ?case by (simp del: loadPDFs.simps(2))
next
  case (Cons g gs)
  then have "loads_fully e g" and gs: "list_all (loads_fully e) gs" by simp_all
  then obtain st' where st': "\<And>files. loadPDFs e (g # files) st = loadPDFs e files st'"
    using loadPDFs_loaded_fully by blast
  from Cons.IH [OF gs, of st'] st' [of "gs @ f # later"] st' [of gs]
  show ?case by (simp del: loadPDFs.simps(2))
qed

text \<open>
  C3, as amended. When the files before \<open>f\<close> in the batch load fully and \<open>f\<close> does not
  open (its bytes cannot be read, or \<open>PDFDocument.load\<close> or the PDF.js loading task
  rejects them), \<open>loadPDFs\<close> alerts and leaves the state exactly as loading the earlier
  files alone leaves it: no page of \<open>f\<close> is appended, the files after \<open>f\<close> are not
  looked at, and the pages that were in the collection before are still there, in front.
\<close>

theorem loadPDFs_failed_open:
  assumes "list_all (loads_fully e) earlier" and "\<not> opens e f"
  shows "loadPDFs e (earlier @ f # later) st = (Alerted, snd (loadPDFs e earlier st))
         \<and> fst (loadPDFs e earlier st) = Completed
         \<and> prefix (pages st) (pages (snd (loadPDFs e earlier st)))"
  using loadPDFs_stops_at_unopened [OF assms(2,1)] loadPDFs_prefix [of st e earlier]
  by blast

theorem loadPDFs_failed_open_witness:
  "list_all (loads_fully env_two_pages) [good_file] \<and> \<not> opens env_two_pages bad_file
   \<and> loadPDFs env_two_pages ([good_file] @ bad_file # [good_file]) init =
       (Alerted, snd (loadPDFs env_two_pages [good_file] init))
   \<and> map sourcePageIndex (pages (snd (loadPDFs env_two_pages [good_file] init))) = [0, 1]"
proof -
  have a: "list_all (loads_fully env_two_pages) [good_file]"
    by (simp add: loads_fully_def PDFDocument_load_def env_two_pages_def good_file_def
        pdfjs_getPage_def)
  have b: "\<not> opens env_two_pages bad_file"
    by (simp add: opens_def PDFDocument_load_def env_two_pages_def bad_file_def)
  have c: "map sourcePageIndex (pages (snd (loadPDFs env_two_pages [good_file] init))) = [0, 1]"
    by (simp add: PDFDocument_load_def env_two_pages_def good_file_def pdfjs_getPage_def
        init_def)
  from loadPDFs_failed_open [OF a b, of "[good_file]" init] a b c show ?thesis by blast
qed

text \<open>
  C3 as stated fails for an error while the pages of a document are being processed:
  \<open>pages.push\<close> runs inside the page loop, after \<open>await pdfJsDoc.getPage(i + 1)\<close>, so
  when that rejects for the second page, the first page of the document is already in
  \<open>pages\<close> and stays there.
\<close>

theorem loadPDFs_partial_counterexample:
  "fst (loadPDFs env_page2_fails [good_file] init) = Alerted
   \<and> pages init = []
   \<and> map sourcePageIndex (pages (snd (loadPDFs env_page2_fails [good_file] init))) = [0]"
  by (simp add: PDFDocument_load_def env_page2_fails_def env_two_pages_def good_file_def
      pdfjs_getPage_def init_def)

section \<open>Export\<close>

lemma map_of_group_step:
  "map_of (group_step x m) =
     (map_of m)(source_key (fst x) \<mapsto>
        (case map_of m (source_key (fst x)) of
           None \<Rightarrow> (pdfBytes (fst x), [x])
         | Some (b, l) \<Rightarrow> (b, l @ [x])))"
  by (auto simp: group_step_def Let_def update_conv' split: option.splits)

lemma distinct_group_step:
  "distinct (map fst m) \<Longrightarrow> distinct (map fst (group_step x m))"
  by (auto simp: group_step_def Let_def distinct_update split: option.splits)

lemma distinct_groups: "distinct (map fst (fold group_step xs []))"
  by (induction xs rule: rev_induct) (simp_all add: distinct_group_step)

lemma map_of_groups:
  "map_of (fold group_step xs []) k =
     (case filter (\<lambda>x. source_key (fst x) = k) xs of
        [] \<Rightarrow> None
      | y # ys \<Rightarrow> Some (pdfBytes (fst y), y # ys))"
proof (induction xs rule: rev_induct)
  case Nil
  then show ?case by simp
next
  case (snoc x xs)
  show ?case
  proof (cases "source_key (fst x) = k")
    case True
    with snoc show ?thesis
      by (simp add: map_of_group_step split: list.splits)
  next
    case False
    with snoc show ?thesis
      by (simp add: map_of_group_step)
  qed
qed

lemma find_filter_hd: "find P xs = (case filter P xs of [] \<Rightarrow> None | y # ys \<Rightarrow> Some y)"
  by (induction xs) simp_all

lemma filter_zip_fst:
  "length ps = length ks \<Longrightarrow> map fst (filter (\<lambda>x. P (fst x)) (zip ps ks)) = filter P ps"
  by (induction ps ks rule: list_induct2) simp_all

lemma find_zip_fst:
  assumes "length ps = length ks" "filter (\<lambda>x. P (fst x)) (zip ps ks) = y # ys"
  shows "find P ps = Some (fst y)"
proof -
  from filter_zip_fst [OF assms(1), of P] assms(2) have "filter P ps = fst y # map fst ys"
    by simp
  then show ?thesis by (simp add: find_filter_hd)
qed

lemma group_member:
  assumes "g \<in> set (group_pages ps)" "x \<in> set (snd (snd g))"
  shows "x \<in> set (zip ps [0..<length ps]) \<and> fst (snd g) = group_bytes ps (fst x)"
proof -
  obtain k b l where g: "g = (k, b, l)" by (cases g)
  let ?xs = "zip ps [0..<length ps]"
  from assms(1) g have "map_of (fold group_step ?xs []) k = Some (b, l)"
    using distinct_groups [of ?xs] by (simp add: group_pages_def)
  then obtain y ys where f: "filter (\<lambda>x. source_key (fst x) = k) ?xs = y # ys"
    and b: "b = pdfBytes (fst y)" and l: "l = y # ys"
    by (auto simp: map_of_groups split: list.splits)
  from assms(2) g l f have "x \<in> set (filter (\<lambda>x. source_key (fst x) = k) ?xs)" by simp
  then have x: "x \<in> set ?xs" and k: "source_key (fst x) = k" by simp_all
  have "find (\<lambda>q. source_key q = k) ps = Some (fst y)"
    using f by (intro find_zip_fst [where ks = "[0..<length ps]" and ys = ys]) simp_all
  with k b have "group_bytes ps (fst x) = b" by (simp add: group_bytes_def)
  with x g show ?thesis by simp
qed

lemma group_covers:
  assumes "x \<in> set (zip ps [0..<length ps])"
  shows "\<exists>g\<in>set (group_pages ps). x \<in> set (snd (snd g))"
proof -
  let ?xs = "zip ps [0..<length ps]"
  let ?k = "source_key (fst x)"
  from assms have "x \<in> set (filter (\<lambda>y. source_key (fst y) = ?k) ?xs)" by simp
  then obtain y ys where f: "filter (\<lambda>y. source_key (fst y) = ?k) ?xs = y # ys"
    by (cases "filter (\<lambda>y. source_key (fst y) = ?k) ?xs") auto
  then have "map_of (group_pages ps) ?k = Some (pdfBytes (fst y), y # ys)"
    by (simp add: group_pages_def map_of_groups)
  then have "(?k, pdfBytes (fst y), y # ys) \<in> set (group_pages ps)"
    by (rule map_of_SomeD)
  moreover have "x \<in> set (y # ys)"
    using \<open>x \<in> set (filter (\<lambda>y. source_key (fst y) = ?k) ?xs)\<close> f by simp
  ultimately show ?thesis by force
qed

lemma filled_assign:
  "filled R n S arr \<Longrightarrow> i < n \<Longrightarrow> filled R n (insert i S) (js_assign i (R i) arr)"
  by (auto simp: filled_def js_assign_def fun_eq_iff)

lemma copy_group_ok:
  "\<forall>x\<in>set l. snd x < n \<and> copy_page e d (fst x) = Some (R (snd x)) \<Longrightarrow> filled R n S arr \<Longrightarrow>
   \<exists>arr'. copy_group e d l arr = Some arr' \<and> filled R n (S \<union> snd ` set l) arr'"
proof (induction l arbitrary: S arr)
  case Nil
  then show ?case by simp
next
  case (Cons x l)
  obtain p i where x: "x = (p, i)" by (cases x)
  from Cons.prems x have i: "i < n" and c: "copy_page e d p = Some (R i)" by auto
  from Cons.prems(2) i have "filled R n (insert i S) (js_assign i (R i) arr)"
    by (rule filled_assign)
  with Cons.IH [of "insert i S" "js_assign i (R i) arr"] Cons.prems(1)
  obtain arr' where "copy_group e d l (js_assign i (R i) arr) = Some arr'"
    and "filled R n (insert i S \<union> snd ` set l) arr'" by auto
  with x c show ?case by simp
qed

lemma copy_group_fail:
  "x \<in> set l \<Longrightarrow> copy_page e d (fst x) = None \<Longrightarrow> copy_group e d l arr = None"
  by (induction l arbitrary: arr) (auto split: option.splits)

lemma copy_groups_ok:
  "\<forall>g\<in>set m. \<exists>d. PDFDocument_load e (fst (snd g)) = Some d \<and>
       (\<forall>x\<in>set (snd (snd g)). snd x < n \<and> copy_page e d (fst x) = Some (R (snd x))) \<Longrightarrow>
   filled R n S arr \<Longrightarrow>
   \<exists>arr'. copy_groups e m arr = Some arr' \<and>
          filled R n (S \<union> (\<Union>g\<in>set m. snd ` set (snd (snd g)))) arr'"
proof (induction m arbitrary: S arr)
  case Nil
  then show ?case by simp
next
  case (Cons g m)
  obtain k b l where g: "g = (k, b, l)" by (cases g)
  from Cons.prems(1) g obtain d where d: "PDFDocument_load e b = Some d"
    and l: "\<forall>x\<in>set l. snd x < n \<and> copy_page e d (fst x) = Some (R (snd x))" by auto
  from copy_group_ok [OF l Cons.prems(2)] obtain arr1
    where 1: "copy_group e d l arr = Some arr1" and f1: "filled R n (S \<union> snd ` set l) arr1"
    by blast
  from Cons.IH [OF _ f1] Cons.prems(1) obtain arr'
    where 2: "copy_groups e m arr1 = Some arr'"
      and f2: "filled R n (S \<union> snd ` set l \<union> (\<Union>g\<in>set m. snd ` set (snd (snd g)))) arr'"
    by auto
  have "S \<union> snd ` set l \<union> (\<Union>g\<in>set m. snd ` set (snd (snd g))) =
        S \<union> (\<Union>g\<in>set (g # m). snd ` set (snd (snd g)))"
    using g by auto
  with f2 1 2 d g show ?case by simp
qed

lemma copy_groups_fail:
  "g \<in> set m \<Longrightarrow> x \<in> set (snd (snd g)) \<Longrightarrow>
   (case PDFDocument_load e (fst (snd g)) of None \<Rightarrow> True | Some d \<Rightarrow> copy_page e d (fst x) = None) \<Longrightarrow>
   copy_groups e m arr = None"
proof (induction m arbitrary: arr)
  case Nil
  then show ?case by simp
next
  case (Cons h m)
  obtain k b l where h: "h = (k, b, l)" by (cases h)
  show ?case
  proof (cases "PDFDocument_load e b")
    case None
    with h show ?thesis by simp
  next
    case (Some d)
    note d = this
    show ?thesis
    proof (cases "copy_group e d l arr")
      case None
      with h d show ?thesis by simp
    next
      case (Some arr1)
      have "g \<noteq> h"
      proof
        assume "g = h"
        with Cons.prems h d have "x \<in> set l" "copy_page e d (fst x) = None" by simp_all
        then have "copy_group e d l arr = None" by (rule copy_group_fail)
        with Some show False by simp
      qed
      with Cons.prems have "g \<in> set m" by simp
      then have "copy_groups e m arr1 = None" using Cons.prems(2,3) by (rule Cons.IH)
      with h d Some show ?thesis by simp
    qed
  qed
qed

lemma addPages_Some: "addPages (map Some ys) acc = Some (acc @ ys)"
  by (induction ys arbitrary: acc) simp_all

lemma filled_empty: "filled R n {} js_empty"
  by (simp add: filled_def js_empty_def)

lemma zip_upt_mem: "x \<in> set (zip ps [0..<length ps]) \<longleftrightarrow> snd x < length ps \<and> fst x = ps ! snd x"
  by (cases x) (auto simp: set_zip)

lemma downloadMerged_eq:
  "downloadMerged e st =
     (if pages st = [] then NothingToExport
      else if list_all (\<lambda>p. copied_from e (pages st) p \<noteq> None) (pages st)
      then Download (map (\<lambda>p. the (copied_from e (pages st) p)) (pages st))
      else ExportAlert)"
proof (cases "pages st = []")
  case True
  then show ?thesis by (simp add: downloadMerged_def)
next
  case False
  define ps where "ps = pages st"
  define n where "n = length ps"
  define R where "R = (\<lambda>i. the (copied_from e ps (ps ! i)))"
  have n: "0 < n" using False by (simp add: n_def ps_def)
  show ?thesis
  proof (cases "list_all (\<lambda>p. copied_from e ps p \<noteq> None) ps")
    case True
    have ok: "copied_from e ps (ps ! i) = Some (R i)" if "i < n" for i
      using True that by (auto simp: list_all_iff R_def n_def)
    have "\<forall>g\<in>set (group_pages ps). \<exists>d. PDFDocument_load e (fst (snd g)) = Some d \<and>
       (\<forall>x\<in>set (snd (snd g)). snd x < n \<and> copy_page e d (fst x) = Some (R (snd x)))"
    proof
      fix g assume g: "g \<in> set (group_pages ps)"
      have mem: "snd x < n \<and> fst x = ps ! snd x \<and> fst (snd g) = group_bytes ps (fst x)"
        if "x \<in> set (snd (snd g))" for x
        using group_member [OF g that] by (simp add: zip_upt_mem n_def)
      have cp: "\<exists>d. PDFDocument_load e (fst (snd g)) = Some d \<and> copy_page e d (fst x) = Some (R (snd x))"
        if "x \<in> set (snd (snd g))" for x
      proof -
        from mem [OF that] ok [of "snd x"]
        have "copied_from e ps (fst x) = Some (R (snd x))" by simp
        with mem [OF that] show ?thesis
          by (auto simp: copied_from_def split: option.splits)
      qed
      show "\<exists>d. PDFDocument_load e (fst (snd g)) = Some d \<and>
       (\<forall>x\<in>set (snd (snd g)). snd x < n \<and> copy_page e d (fst x) = Some (R (snd x)))"
      proof (cases "snd (snd g)")
        case Nil
        obtain k b l where "g = (k, b, l)" by (cases g)
        with g Nil have "map_of (group_pages ps) k = Some (b, [])"
          using distinct_groups [of "zip ps [0..<length ps]"] by (simp add: group_pages_def)
        then have False by (simp add: group_pages_def map_of_groups split: list.splits)
        then show ?thesis ..
      next
        case (Cons y ys)
        then have "y \<in> set (snd (snd g))" by simp
        from cp [OF this] obtain d where d: "PDFDocument_load e (fst (snd g)) = Some d" by blast
        have "\<forall>x\<in>set (snd (snd g)). snd x < n \<and> copy_page e d (fst x) = Some (R (snd x))"
          using cp mem d by fastforce
        with d show ?thesis by blast
      qed
    qed
    from copy_groups_ok [OF this filled_empty]
    obtain arr where arr: "copy_groups e (group_pages ps) js_empty = Some arr"
      and f: "filled R n ({} \<union> (\<Union>g\<in>set (group_pages ps). snd ` set (snd (snd g)))) arr"
      by blast
    have cov: "({} \<union> (\<Union>g\<in>set (group_pages ps). snd ` set (snd (snd g)))) = {0..<n}"
    proof (intro equalityI subsetI)
      fix i assume "i \<in> {} \<union> (\<Union>g\<in>set (group_pages ps). snd ` set (snd (snd g)))"
      then obtain g x where "g \<in> set (group_pages ps)" "x \<in> set (snd (snd g))" "i = snd x"
        by auto
      with group_member [of g ps x] show "i \<in> {0..<n}" by (simp add: zip_upt_mem n_def)
    next
      fix i assume "i \<in> {0..<n}"
      then have "(ps ! i, i) \<in> set (zip ps [0..<length ps])" by (simp add: zip_upt_mem n_def)
      from group_covers [OF this]
      show "i \<in> {} \<union> (\<Union>g\<in>set (group_pages ps). snd ` set (snd (snd g)))" by force
    qed
    from f have f': "filled R n {0..<n} arr" by (simp only: cov)
    then have "n - 1 < len arr" "len arr \<le> n" using n by (auto simp: filled_def)
    then have len: "len arr = n" by simp
    from f' have "js_values arr = map Some (map R [0..<n])"
      by (simp add: js_values_def len filled_def)
    then have "addPages (js_values arr) [] = Some (map R [0..<n])"
      by (simp only: addPages_Some append_Nil)
    moreover have "map R [0..<n] = map (\<lambda>p. the (copied_from e ps p)) ps"
      by (rule nth_equalityI) (simp_all add: R_def n_def)
    ultimately show ?thesis using arr False True
      by (simp add: downloadMerged_def ps_def)
  next
    case F: False
    then obtain p where p: "p \<in> set ps" "copied_from e ps p = None"
      by (auto simp: list_all_iff)
    then obtain i where i: "i < n" "p = ps ! i" by (auto simp: in_set_conv_nth n_def)
    then have x: "(p, i) \<in> set (zip ps [0..<length ps])" by (simp add: zip_upt_mem n_def)
    from group_covers [OF x] obtain g where g: "g \<in> set (group_pages ps)" "(p, i) \<in> set (snd (snd g))"
      by blast
    from group_member [OF g] have "fst (snd g) = group_bytes ps p" by simp
    with p(2) have "case PDFDocument_load e (fst (snd g)) of None \<Rightarrow> True
        | Some d \<Rightarrow> copy_page e d (fst (p, i)) = None"
      by (simp add: copied_from_def split: option.splits)
    with g have "copy_groups e (group_pages ps) js_empty = None"
      by (rule copy_groups_fail)
    with False F show ?thesis by (simp add: downloadMerged_def ps_def)
  qed
qed


text \<open>What a successful export puts out, page by page.\<close>

lemma downloadMerged_Download:
  assumes "downloadMerged e st = Download out"
  shows "map Some out = map (copied_from e (pages st)) (pages st)"
proof -
  from assms have ok: "list_all (\<lambda>p. copied_from e (pages st) p \<noteq> None) (pages st)"
    and out: "out = map (\<lambda>p. the (copied_from e (pages st) p)) (pages st)"
    by (auto simp: downloadMerged_eq split: if_splits)
  show ?thesis unfolding out using ok by (auto simp: list_all_iff)
qed

lemma copied_from_Some:
  assumes "copied_from e ps p = Some pg"
  shows "\<exists>rs. pdflib_parse e (group_bytes ps p) = Some rs \<and> sourcePageIndex p < length rs \<and>
          pg = \<lparr>origin_bytes = group_bytes ps p, origin_index = sourcePageIndex p,
                angle = rs ! sourcePageIndex p + rotation p\<rparr>"
  using assms
  by (auto simp: copied_from_def PDFDocument_load_def copy_page_def Let_def
      split: option.splits if_splits)

lemma downloadMerged_pages:
  assumes "downloadMerged e st = Download out"
  shows "length out = length (pages st)"
    and "k < length (pages st) \<Longrightarrow>
         \<exists>rs. pdflib_parse e (group_bytes (pages st) (pages st ! k)) = Some rs \<and>
              sourcePageIndex (pages st ! k) < length rs \<and>
              out ! k = \<lparr>origin_bytes = group_bytes (pages st) (pages st ! k),
                         origin_index = sourcePageIndex (pages st ! k),
                         angle = rs ! sourcePageIndex (pages st ! k) + rotation (pages st ! k)\<rparr>"
proof -
  note eq = downloadMerged_Download [OF assms]
  from eq have "length (map Some out) = length (map (copied_from e (pages st)) (pages st))"
    by (rule arg_cong)
  then show len: "length out = length (pages st)" by simp
  assume k: "k < length (pages st)"
  from eq have "map Some out ! k = map (copied_from e (pages st)) (pages st) ! k"
    by (rule arg_cong)
  with k len have "copied_from e (pages st) (pages st ! k) = Some (out ! k)" by simp
  then show "\<exists>rs. pdflib_parse e (group_bytes (pages st) (pages st ! k)) = Some rs \<and>
              sourcePageIndex (pages st ! k) < length rs \<and>
              out ! k = \<lparr>origin_bytes = group_bytes (pages st) (pages st ! k),
                         origin_index = sourcePageIndex (pages st ! k),
                         angle = rs ! sourcePageIndex (pages st ! k) + rotation (pages st ! k)\<rparr>"
    by (rule copied_from_Some)
qed

text \<open>
  When no record with the grouping key of \<open>p\<close> has other bytes than \<open>p\<close>, the buffer
  opened for \<open>p\<close> is the one \<open>p\<close> carries, and the exported page is copied from it.
\<close>

lemma find_SomeD: "find P xs = Some x \<Longrightarrow> x \<in> set xs \<and> P x"
  by (induction xs) (simp_all split: if_splits)

lemma group_bytes_own:
  assumes "\<forall>q\<in>set ps. source_key q = source_key p \<longrightarrow> pdfBytes q = pdfBytes p"
  shows "group_bytes ps p = pdfBytes p"
proof (cases "find (\<lambda>q. source_key q = source_key p) ps")
  case None
  then show ?thesis by (simp add: group_bytes_def)
next
  case (Some q)
  from find_SomeD [OF this] assms have "pdfBytes q = pdfBytes p" by blast
  with Some show ?thesis by (simp add: group_bytes_def)
qed

lemma downloadMerged_own_source:
  assumes "downloadMerged e st = Download out" "k < length (pages st)"
    "\<forall>q\<in>set (pages st). source_key q = source_key (pages st ! k) \<longrightarrow>
       pdfBytes q = pdfBytes (pages st ! k)"
  shows "origin_bytes (out ! k) = pdfBytes (pages st ! k) \<and>
         origin_index (out ! k) = sourcePageIndex (pages st ! k)"
  using downloadMerged_pages(2) [OF assms(1,2)] group_bytes_own [OF assms(3)] by auto

text \<open>
  C2, as amended. When the export succeeds, the page put out for a record with a rotation
  other than \<open>0\<close> is the page at the record's \<open>sourcePageIndex\<close> of the document it was
  copied from, and its angle is the angle that page carries in that document plus the
  record's \<open>rotation\<close>. The sum is handed to \<open>setRotation\<close> as it is, without a
  reduction modulo 360.
\<close>

theorem downloadMerged_rotation:
  assumes "downloadMerged e st = Download out" "k < length (pages st)"
    "rotation (pages st ! k) \<noteq> 0"
  shows "\<exists>rs. pdflib_parse e (origin_bytes (out ! k)) = Some rs \<and>
              origin_index (out ! k) = sourcePageIndex (pages st ! k) \<and>
              origin_index (out ! k) < length rs \<and>
              angle (out ! k) = rs ! origin_index (out ! k) + rotation (pages st ! k)"
  using downloadMerged_pages(2) [OF assms(1,2)] by auto

lemma two_pages_export:
  "downloadMerged env_two_pages two_pages =
     Download [\<lparr>origin_bytes = [37, 80], origin_index = 0, angle = 0\<rparr>,
               \<lparr>origin_bytes = [37, 80], origin_index = 1, angle = 360\<rparr>]"
  by (simp add: downloadMerged_def group_pages_def group_step_def source_key_def
        copy_page_def PDFDocument_load_def js_values_def js_assign_def js_empty_def
        env_two_pages_def two_pages_def page1_def page2_def Let_def)

theorem downloadMerged_rotation_witness:
  "downloadMerged env_two_pages two_pages =
     Download [\<lparr>origin_bytes = [37, 80], origin_index = 0, angle = 0\<rparr>,
               \<lparr>origin_bytes = [37, 80], origin_index = 1, angle = 360\<rparr>]
   \<and> (1::nat) < length (pages two_pages) \<and> rotation (pages two_pages ! 1) \<noteq> 0
   \<and> (\<exists>rs. pdflib_parse env_two_pages [37, 80] = Some rs \<and> 1 < length rs \<and>
            360 = rs ! 1 + rotation (pages two_pages ! 1))"
proof -
  have a: "(1::nat) < length (pages two_pages)" by (simp add: two_pages_def)
  have b: "rotation (pages two_pages ! 1) \<noteq> 0" by (simp add: two_pages_def page2_def)
  from downloadMerged_rotation [OF two_pages_export a b] two_pages_export a b
  show ?thesis by simp blast
qed

text \<open>
  C2 as stated fails: for a source page stored with an angle of 90 and a record rotated
  to 270, the exported page has the angle 360, not \<open>(90 + 270) mod 360 = 0\<close>.
\<close>

theorem downloadMerged_not_reduced_counterexample:
  "downloadMerged env_two_pages two_pages =
     Download [\<lparr>origin_bytes = [37, 80], origin_index = 0, angle = 0\<rparr>,
               \<lparr>origin_bytes = [37, 80], origin_index = 1, angle = 360\<rparr>]
   \<and> pdflib_parse env_two_pages (pdfBytes page2) = Some [0, 90]
   \<and> sourcePageIndex page2 = 1 \<and> rotation page2 = 270
   \<and> (90 + 270) mod 360 \<noteq> (360::int)"
  by (simp add: downloadMerged_def group_pages_def group_step_def source_key_def
        copy_page_def PDFDocument_load_def js_values_def js_assign_def js_empty_def
        env_two_pages_def two_pages_def page1_def page2_def Let_def)

text \<open>
  C1, at an input where the code departs from it. Two files with the same name and the
  same number of bytes get the same grouping key
  \<open>page.sourceFile + '-' + page.pdfBytes.length\<close>. After loading both, the export opens
  the buffer of the first file only and copies the page of the second record from it as
  well: the output has one page per record, in order, but its second page does not come
  from the buffer \<open>[37, 81]\<close> that the second record carries.
\<close>

theorem downloadMerged_same_name_and_size:
  "map pdfBytes (pages (snd (loadPDFs env_one_page [scan_a, scan_b] init))) = [[37, 80], [37, 81]]
   \<and> map sourceFile (pages (snd (loadPDFs env_one_page [scan_a, scan_b] init))) =
       [''scan.pdf'', ''scan.pdf'']
   \<and> downloadMerged env_one_page (snd (loadPDFs env_one_page [scan_a, scan_b] init)) =
       Download [\<lparr>origin_bytes = [37, 80], origin_index = 0, angle = 0\<rparr>,
                 \<lparr>origin_bytes = [37, 80], origin_index = 0, angle = 0\<rparr>]"
  by (simp add: downloadMerged_def group_pages_def group_step_def source_key_def
        copy_page_def PDFDocument_load_def js_values_def js_assign_def js_empty_def
        env_one_page_def scan_a_def scan_b_def init_def pdfjs_getPage_def Let_def)

end
